theory Spec2Isabelle
  imports Main "HOL-Library.Word"
begin

unbundle bit_operations_syntax

section \<open>Machine model\<close>

text \<open>
  The library is written for a 64-bit platform (\<open>DEFAULT_LARGE_STACK = 1ULL << 36\<close>):
  \<open>size_t\<close> and \<open>uint8_t *\<close> are 64-bit words whose arithmetic wraps around, and
  \<open>nullptr\<close> is the word 0. Memory is a map from addresses to bytes. A value of an
  element type \<open>T\<close> is its object representation, a list of \<open>sizeof(T)\<close> bytes;
  \<open>sizeof(T)\<close> is the parameter \<open>sz\<close> of every operation of a container of \<open>T\<close>.
  A reference \<open>T &\<close> is the address of the object it refers to.
\<close>

type_synonym addr = "64 word"
type_synonym byte = "8 word"
type_synonym heap = "addr \<Rightarrow> byte"

text \<open>
  \<open>assert\<close> is modelled as compiled in (a debug build): a failing assertion is the
  error \<open>AssertionFailed\<close>. \<open>abort()\<close> is the error \<open>Abort\<close>.
\<close>

datatype error = AssertionFailed | Abort

text \<open>\<open>memcpy(dst, src, n)\<close>: the bytes \<open>src[0..n-1]\<close> are written at \<open>dst\<close> upwards.\<close>

primrec memcpy :: "heap \<Rightarrow> addr \<Rightarrow> byte list \<Rightarrow> nat \<Rightarrow> heap" where
  "memcpy h dst src 0 = h"
| "memcpy h dst src (Suc n) = (memcpy h dst src n)(dst + of_nat n := src ! n)"

text \<open>Reading the \<open>n\<close> bytes of an object at address \<open>a\<close>.\<close>

definition load :: "heap \<Rightarrow> addr \<Rightarrow> nat \<Rightarrow> byte list" where
  "load h a n = map (\<lambda>k. h (a + of_nat k)) [0..<n]"

text \<open>
  A pointer value \<open>T *\<close> is stored as its eight bytes, least significant first.
\<close>

definition encode_ptr :: "addr \<Rightarrow> byte list" where
  "encode_ptr p = map (\<lambda>k. ucast (drop_bit (8 * k) p)) [0..<8]"

definition decode_ptr :: "byte list \<Rightarrow> addr" where
  "decode_ptr bs = foldr (\<lambda>b w. ucast b OR push_bit 8 w) bs 0"

definition sizeof_ptr :: addr where
  "sizeof_ptr = 8"

section \<open>struct stack\<close>

record stack =
  sp :: addr
  memory :: addr
  stack_size :: addr

text \<open>The default member initialisers: \<open>sp = nullptr\<close>, \<open>memory = nullptr\<close>, \<open>size = 0\<close>.\<close>

definition stack_init :: stack where
  "stack_init = \<lparr>sp = 0, memory = 0, stack_size = 0\<rparr>"

text \<open>
  \<open>stack::alloc(_size)\<close>. The address \<open>vp\<close> is what \<open>alloc_stack_address_space\<close>
  returned for this call (0 when the reservation failed).
\<close>

definition stack_alloc :: "addr \<Rightarrow> addr \<Rightarrow> bool \<times> stack" where
  "stack_alloc vp s = (vp \<noteq> 0, \<lparr>sp = vp, memory = vp, stack_size = s\<rparr>)"

section \<open>struct basic\_vector\<close>

text \<open>The fields \<open>end\<close> and \<open>begin\<close>, in the order of the source.\<close>

record basic_vector =
  bv_end :: addr
  bv_begin :: addr

definition basic_vector_ctor :: "addr \<Rightarrow> basic_vector" where
  "basic_vector_ctor p = \<lparr>bv_end = p, bv_begin = p\<rparr>"

definition push_back ::
  "addr \<Rightarrow> byte list \<Rightarrow> 'a basic_vector_scheme \<times> heap \<Rightarrow> 'a basic_vector_scheme \<times> heap" where
  "push_back sz t s =
     (case s of (v, h) \<Rightarrow>
        (v\<lparr>bv_end := bv_end v + sz\<rparr>, memcpy h (bv_end v) t (unat sz)))"

definition pop_back :: "addr \<Rightarrow> 'a basic_vector_scheme \<Rightarrow> error + 'a basic_vector_scheme" where
  "pop_back sz v =
     (if bv_begin v < bv_end v then Inr (v\<lparr>bv_end := bv_end v - sz\<rparr>)
      else Inl AssertionFailed)"

text \<open>\<open>operator[]\<close>: the address of element \<open>i\<close>.\<close>

definition op_index :: "addr \<Rightarrow> 'a basic_vector_scheme \<Rightarrow> addr \<Rightarrow> error + addr" where
  "op_index sz v i =
     (if i * sz < bv_end v - bv_begin v then Inr (bv_begin v + i * sz)
      else Inl AssertionFailed)"

definition bv_back :: "addr \<Rightarrow> 'a basic_vector_scheme \<Rightarrow> error + addr" where
  "bv_back sz v =
     (if bv_begin v < bv_end v then Inr (bv_end v - sz) else Inl AssertionFailed)"

text \<open>\<open>pop\<close>: the reference returned and the vector afterwards.\<close>

definition pop ::
  "addr \<Rightarrow> 'a basic_vector_scheme \<Rightarrow> error + (addr \<times> 'a basic_vector_scheme)" where
  "pop sz v =
     (if bv_begin v < bv_end v
      then Inr (bv_end v - sz, v\<lparr>bv_end := bv_end v - sz\<rparr>)
      else Inl AssertionFailed)"

text \<open>
  \<open>size()\<close> is \<open>(begin - end) / sizeof(T)\<close>: the pointer difference is converted to
  \<open>size_t\<close> for the division, which is the unsigned division of 64-bit words.
\<close>

definition size_bv :: "addr \<Rightarrow> 'a basic_vector_scheme \<Rightarrow> addr" where
  "size_bv sz v = (bv_begin v - bv_end v) div sz"

text \<open>A run of \<open>push_back\<close> calls, first element of the list first.\<close>

definition push_all ::
  "addr \<Rightarrow> byte list list \<Rightarrow> 'a basic_vector_scheme \<times> heap \<Rightarrow> 'a basic_vector_scheme \<times> heap" where
  "push_all sz ts s = fold (push_back sz) ts s"

section \<open>The pool of stacks\<close>

record pool =
  locked :: addr
  allocated :: addr
  stacks :: "nat \<Rightarrow> stack"

definition DEFAULT_LARGE_STACK :: addr where
  "DEFAULT_LARGE_STACK = push_bit 36 1"

definition DEFAULT_MAX_STACKS :: addr where
  "DEFAULT_MAX_STACKS = push_bit 10 1"

text \<open>The pool at program start: both counters 0, every slot default constructed.\<close>

definition pool_init :: pool where
  "pool_init = \<lparr>locked = 0, allocated = 0, stacks = (\<lambda>_. stack_init)\<rparr>"

text \<open>
  \<open>acquire_stack\<close>. The parameter \<open>os\<close> stands for the operating system: \<open>os i\<close> is the
  address \<open>alloc_stack_address_space\<close> returns when slot \<open>i\<close> is materialised (each
  slot is materialised at most once), 0 when the reservation fails. The result is the
  index of the slot whose address is returned, or the error, together with the pool as
  the call leaves it (on the fatal paths: as it is when \<open>abort\<close> is called). Both fatal
  paths are \<open>assert(false); abort();\<close>: with or without assertions compiled in, the
  process aborts there, which is the error \<open>Abort\<close>.
\<close>

definition acquire_stack :: "(nat \<Rightarrow> addr) \<Rightarrow> pool \<Rightarrow> (error + nat) \<times> pool" where
  "acquire_stack os p =
     (if allocated p = locked p then
        (if allocated p = DEFAULT_MAX_STACKS then (Inl Abort, p)
         else
           (let i = unat (allocated p);
                r = stack_alloc (os i) DEFAULT_LARGE_STACK;
                p1 = p\<lparr>allocated := allocated p + 1, stacks := (stacks p)(i := snd r)\<rparr>
            in if \<not> fst r then (Inl Abort, p1)
               else (Inr (unat (locked p1)), p1\<lparr>locked := locked p1 + 1\<rparr>)))
      else (Inr (unat (locked p)), p\<lparr>locked := locked p + 1\<rparr>))"

definition release_stack :: "pool \<Rightarrow> pool" where
  "release_stack p = p\<lparr>locked := locked p - 1\<rparr>"

text \<open>The pool invariant of the specification.\<close>

definition pool_inv :: "pool \<Rightarrow> bool" where
  "pool_inv p \<longleftrightarrow> 0 \<le> locked p \<and> locked p \<le> allocated p \<and> allocated p \<le> DEFAULT_MAX_STACKS"

text \<open>\<open>n\<close> calls of \<open>acquire_stack\<close> in a row, collecting the slots handed out.\<close>

primrec acquire_n :: "(nat \<Rightarrow> addr) \<Rightarrow> nat \<Rightarrow> pool \<Rightarrow> (error + nat list) \<times> pool" where
  "acquire_n os 0 p = (Inr [], p)"
| "acquire_n os (Suc n) p =
     (case acquire_stack os p of
        (Inl e, p1) \<Rightarrow> (Inl e, p1)
      | (Inr i, p1) \<Rightarrow>
          (case acquire_n os n p1 of
             (Inl e, p2) \<Rightarrow> (Inl e, p2)
           | (Inr is, p2) \<Rightarrow> (Inr (i # is), p2)))"

primrec release_n :: "nat \<Rightarrow> pool \<Rightarrow> pool" where
  "release_n 0 p = p"
| "release_n (Suc n) p = release_n n (release_stack p)"

text \<open>
  Sequences of calls. \<open>trace\<close> lists the pool after each call made; a call that takes
  a fatal path is the last one, as the process ends there. \<open>balanced d ops\<close>: no prefix
  of \<open>ops\<close> has more than \<open>d\<close> releases beyond its acquires.
\<close>

datatype pool_op = Acquire | Release

fun trace :: "(nat \<Rightarrow> addr) \<Rightarrow> pool_op list \<Rightarrow> pool \<Rightarrow> pool list" where
  "trace os [] p = []"
| "trace os (Acquire # ops) p =
     (case acquire_stack os p of
        (Inl e, p1) \<Rightarrow> [p1]
      | (Inr i, p1) \<Rightarrow> p1 # trace os ops p1)"
| "trace os (Release # ops) p = release_stack p # trace os ops (release_stack p)"

fun balanced :: "nat \<Rightarrow> pool_op list \<Rightarrow> bool" where
  "balanced d [] = True"
| "balanced d (Acquire # ops) = balanced (Suc d) ops"
| "balanced d (Release # ops) = (0 < d \<and> balanced (d - 1) ops)"

text \<open>
  The pools reached from the initial pool by calls of \<open>acquire_stack\<close> and
  \<open>release_stack\<close> alone, a release only when a stack is locked. Containers that carve
  from a stack also move its \<open>sp\<close>; the statements about them below are therefore made
  for every pool that satisfies \<open>pool_inv\<close>, which these pools do.
\<close>

inductive reachable :: "(nat \<Rightarrow> addr) \<Rightarrow> pool \<Rightarrow> bool" for os where
  reachable_init: "reachable os pool_init"
| reachable_acquire: "reachable os p \<Longrightarrow> acquire_stack os p = (Inr i, p1) \<Longrightarrow> reachable os p1"
| reachable_release: "reachable os p \<Longrightarrow> locked p \<noteq> 0 \<Longrightarrow> reachable os (release_stack p)"

code_pred reachable .

text \<open>
  Sample inputs for the examples below: an operating system that places the reservation
  of slot \<open>i\<close> at \<open>4096 + i * DEFAULT_LARGE_STACK\<close>, and a memory of zero bytes.
\<close>

definition os_example :: "nat \<Rightarrow> addr" where
  "os_example i = 4096 + of_nat i * DEFAULT_LARGE_STACK"

definition heap_zero :: heap where
  "heap_zero a = 0"

section \<open>struct vector\<close>

text \<open>
  \<open>vector()\<close> passes \<open>acquire_stack()->sp\<close> to the base constructor; \<open>~vector()\<close> calls
  \<open>release_stack()\<close>. The slot index is returned beside the vector for reference only:
  the vector itself does not keep it.
\<close>

definition vector_ctor :: "(nat \<Rightarrow> addr) \<Rightarrow> pool \<Rightarrow> (error + (basic_vector \<times> nat)) \<times> pool" where
  "vector_ctor os p =
     (case acquire_stack os p of
        (Inl e, p1) \<Rightarrow> (Inl e, p1)
      | (Inr i, p1) \<Rightarrow> (Inr (basic_vector_ctor (sp (stacks p1 i)), i), p1))"

definition vector_dtor :: "pool \<Rightarrow> pool" where
  "vector_dtor p = release_stack p"

section \<open>struct vector\_max\<close>

record vector_max = basic_vector +
  st :: nat
  capacity :: addr

definition vector_max_ctor ::
  "(nat \<Rightarrow> addr) \<Rightarrow> addr \<Rightarrow> addr \<Rightarrow> pool \<Rightarrow> (error + vector_max) \<times> pool" where
  "vector_max_ctor os sz mx p =
     (case acquire_stack os p of
        (Inl e, p1) \<Rightarrow> (Inl e, p1)
      | (Inr i, p1) \<Rightarrow>
          (let s = stacks p1 i;
               v = \<lparr>bv_end = sp s, bv_begin = sp s, st = i, capacity = sp s + mx * sz\<rparr>;
               p2 = p1\<lparr>stacks := (stacks p1)(i := s\<lparr>sp := sp s + mx * sz\<rparr>)\<rparr>
           in (Inr v, release_stack p2)))"

definition vector_max_dtor :: "vector_max \<Rightarrow> pool \<Rightarrow> pool" where
  "vector_max_dtor v p = p\<lparr>stacks := (stacks p)(st v := (stacks p (st v))\<lparr>sp := bv_begin v\<rparr>)\<rparr>"

definition vector_max_push_back ::
  "addr \<Rightarrow> byte list \<Rightarrow> vector_max \<times> heap \<Rightarrow> error + (vector_max \<times> heap)" where
  "vector_max_push_back sz t s =
     (case s of (v, h) \<Rightarrow>
        if bv_end v < capacity v
        then Inr (v\<lparr>bv_end := bv_end v + sz\<rparr>, memcpy h (bv_end v) t (unat sz))
        else Inl AssertionFailed)"

text \<open>
  \<open>vector_fixed\<close> has no model here. Its constructor passes \<open>st\<close>, the \<open>stack *\<close> itself,
  to the base constructor, which takes a \<open>uint8_t *\<close>, where \<open>vector_max\<close> takes
  \<open>st->sp\<close>; its destructor calls the data member \<open>begin\<close> as a function. The template
  is ill-formed when instantiated, and no source file instantiates it.
\<close>

text \<open>The bytes a container carved: \<open>n\<close> bytes from \<open>b\<close> upwards.\<close>

definition region :: "addr \<Rightarrow> nat \<Rightarrow> addr set" where
  "region b n = (\<lambda>k. b + of_nat k) ` {..<n}"

text \<open>
  A sample pool in which a carve is live: the initial pool after a \<open>vector_max\<close> of
  five 4-byte elements was constructed (and not yet destroyed). Slot 0 then has
  \<open>memory = 4096\<close> and \<open>sp = 4116\<close>.
\<close>

definition pool_carved :: pool where
  "pool_carved = snd (vector_max_ctor os_example 4 5 pool_init)"

section \<open>struct vector\_pool\<close>

text \<open>
  \<open>vector_pool<T>\<close> is a \<open>vector<T>\<close> with the member \<open>free_list\<close>, a \<open>vector<T *>\<close>.
\<close>

record vector_pool = basic_vector +
  free_list :: basic_vector

definition alloc ::
  "addr \<Rightarrow> byte list \<Rightarrow> vector_pool \<times> heap \<Rightarrow> error + (addr \<times> vector_pool \<times> heap)" where
  "alloc sz t s =
     (case s of (v, h) \<Rightarrow>
        if size_bv sizeof_ptr (free_list v) \<noteq> 0 then
          (case pop sizeof_ptr (free_list v) of
             Inl e \<Rightarrow> Inl e
           | Inr (r, fl) \<Rightarrow>
               (let tn = decode_ptr (load h r (unat sizeof_ptr))
                in Inr (tn, v\<lparr>free_list := fl\<rparr>, memcpy h tn t (unat sz))))
        else
          (case push_back sz t (v, h) of (v1, h1) \<Rightarrow>
             (case bv_back sz v1 of
                Inl e \<Rightarrow> Inl e
              | Inr r \<Rightarrow> Inr (r, v1, h1))))"

definition reuseable ::
  "addr \<Rightarrow> vector_pool \<times> heap \<Rightarrow> error + (vector_pool \<times> heap)" where
  "reuseable r s =
     (case s of (v, h) \<Rightarrow>
        if bv_begin v \<le> r \<and> r < bv_end v then
          (case push_back sizeof_ptr (encode_ptr r) (free_list v, h) of (fl, h1) \<Rightarrow>
             Inr (v\<lparr>free_list := fl\<rparr>, h1))
        else Inl AssertionFailed)"

section \<open>Facts about 64-bit words\<close>

lemma of_nat_inj64:
  assumes "a < 2 ^ 64" "b < 2 ^ 64"
  shows "(of_nat a :: addr) = of_nat b \<longleftrightarrow> a = b"
  using assms by (simp add: word_of_nat_eq_iff take_bit_nat_eq_self)

lemma unat_of_nat64:
  assumes "a < 2 ^ 64"
  shows "unat (of_nat a :: addr) = a"
  using assms by (simp add: unat_of_nat take_bit_nat_eq_self)

lemma unat_lt64: "unat (w :: addr) < 2 ^ 64"
  using unsigned_less [of w, where 'a = nat] by simp

lemma unat_succ_bounded:
  fixes w :: addr
  assumes "unat w < 1024"
  shows "unat (w + 1) = Suc (unat w)"
  using assms by (simp add: unat_word_ariths)

lemma unat_succ_below:
  fixes w v :: addr
  assumes "unat w < unat v"
  shows "unat (w + 1) = Suc (unat w)"
proof -
  have "unat v < 2 ^ 64"
    using unsigned_less [of v, where 'a = nat] by simp
  with assms have "Suc (unat w) < 2 ^ 64" by simp
  then show ?thesis
    by (simp add: unat_word_ariths)
qed

lemma unat_plus_of_nat:
  fixes p :: addr
  assumes "unat p + m < 2 ^ 64"
  shows "unat (p + of_nat m) = unat p + m"
proof -
  from assms have "m < 2 ^ 64" by simp
  then have "unat (of_nat m :: addr) = m" by (rule unat_of_nat64)
  with assms show ?thesis
    by (simp add: unat_word_ariths)
qed

lemma below_plus_of_nat:
  fixes p :: addr
  assumes "unat p + m < 2 ^ 64" "0 < m"
  shows "p < p + of_nat m"
  using assms by (simp add: word_less_nat_alt unat_plus_of_nat)

lemma unat_plus_word:
  fixes p s :: addr
  assumes "unat p + unat s < 2 ^ 64"
  shows "unat (p + s) = unat p + unat s"
  using assms by (simp add: unat_word_ariths)

section \<open>The pool: invariant, exhaustion and reuse\<close>

lemma max_stacks_unat: "unat DEFAULT_MAX_STACKS = 1024"
  by (simp add: DEFAULT_MAX_STACKS_def)

lemma pool_inv_unat:
  "pool_inv p \<longleftrightarrow> unat (locked p) \<le> unat (allocated p) \<and> unat (allocated p) \<le> 1024"
  by (simp add: pool_inv_def word_le_nat_alt max_stacks_unat)

lemma allocated_below_max:
  assumes "pool_inv p" "allocated p \<noteq> DEFAULT_MAX_STACKS"
  shows "unat (allocated p) < 1024"
proof -
  have "unat (allocated p) \<noteq> unat DEFAULT_MAX_STACKS"
    using assms(2) by (simp add: word_unat_eq_iff)
  with assms(1) show ?thesis
    by (simp add: pool_inv_unat max_stacks_unat)
qed

lemma acquire_stack_inv:
  assumes "pool_inv p"
  shows "pool_inv (snd (acquire_stack os p))"
proof (cases "allocated p = locked p")
  case False
  with assms have lt: "unat (locked p) < unat (allocated p)"
    by (auto simp: pool_inv_unat word_unat_eq_iff)
  with assms have "unat (locked p + 1) = Suc (unat (locked p))"
    by (intro unat_succ_bounded) (simp add: pool_inv_unat)
  with False lt assms show ?thesis
    by (simp add: acquire_stack_def pool_inv_unat)
next
  case True
  show ?thesis
  proof (cases "allocated p = DEFAULT_MAX_STACKS")
    case True
    with \<open>allocated p = locked p\<close> assms show ?thesis
      by (simp add: acquire_stack_def)
  next
    case False
    with assms have b: "unat (allocated p) < 1024"
      by (rule allocated_below_max)
    then have s: "unat (allocated p + 1) = Suc (unat (allocated p))"
      by (rule unat_succ_bounded)
    from True s have s': "unat (locked p + 1) = Suc (unat (locked p))"
      by simp
    from True False b s s' show ?thesis
      by (simp add: acquire_stack_def Let_def pool_inv_unat)
  qed
qed

text \<open>What a successful acquire does.\<close>

lemma acquire_stack_Inr:
  assumes "pool_inv p" "acquire_stack os p = (Inr i, p1)"
  shows "i = unat (locked p)" "locked p1 = locked p + 1"
    "unat (locked p1) = Suc (unat (locked p))"
    "unat (locked p1) \<le> unat (allocated p1)"
proof -
  have inv1: "pool_inv p1"
    using acquire_stack_inv [OF assms(1), of os] assms(2) by simp
  show i: "i = unat (locked p)" and l: "locked p1 = locked p + 1"
    using assms(2) by (auto simp: acquire_stack_def Let_def split: if_splits)
  show le: "unat (locked p1) \<le> unat (allocated p1)"
    using inv1 by (simp add: pool_inv_unat)
  have "unat (locked p) < 1024"
  proof (cases "allocated p = locked p")
    case True
    then have "allocated p \<noteq> DEFAULT_MAX_STACKS"
      using assms(2) by (auto simp: acquire_stack_def)
    with assms(1) True show ?thesis
      using allocated_below_max by force
  next
    case False
    with assms(1) show ?thesis
      by (auto simp: pool_inv_unat word_unat_eq_iff)
  qed
  with l show "unat (locked p1) = Suc (unat (locked p))"
    by (simp add: unat_succ_bounded)
qed

text \<open>An acquire that finds an unlocked materialised stack only moves the counter.\<close>

lemma acquire_stack_reuse:
  assumes "unat (locked p) < unat (allocated p)"
  shows "acquire_stack os p = (Inr (unat (locked p)), p\<lparr>locked := locked p + 1\<rparr>)"
  using assms by (auto simp: acquire_stack_def)

lemma release_stack_inv:
  assumes "pool_inv p" "locked p \<noteq> 0"
  shows "pool_inv (release_stack p)"
proof -
  have "unat (locked p) \<noteq> 0"
    using assms(2) by (simp add: unat_eq_0)
  then have "unat (locked p - 1) = unat (locked p) - 1"
    by (simp add: unat_minus_one assms(2))
  with assms(1) show ?thesis
    by (auto simp: release_stack_def pool_inv_unat)
qed

lemma pool_init_inv: "pool_inv pool_init"
  by (simp add: pool_inv_unat pool_init_def)

lemma reachable_inv: "reachable os p \<Longrightarrow> pool_inv p"
proof (induction rule: reachable.induct)
  case reachable_init
  show ?case by (rule pool_init_inv)
next
  case (reachable_acquire p i p1)
  then show ?case
    using acquire_stack_inv [of p os] by simp
next
  case (reachable_release p)
  then show ?case by (simp add: release_stack_inv)
qed

lemma trace_inv:
  assumes "pool_inv p" "d \<le> unat (locked p)" "balanced d ops"
  shows "\<forall>q\<in>set (trace os ops p). pool_inv q"
  using assms
proof (induction ops arbitrary: p d)
  case Nil
  show ?case by simp
next
  case (Cons x ops)
  show ?case
  proof (cases x)
    case Acquire
    obtain r p1 where a: "acquire_stack os p = (r, p1)"
      by (cases "acquire_stack os p")
    have inv1: "pool_inv p1"
      using acquire_stack_inv [OF Cons.prems(1), of os] a by simp
    show ?thesis
    proof (cases r)
      case (Inl e)
      with Acquire a inv1 show ?thesis by simp
    next
      case (Inr i)
      with a have "unat (locked p1) = Suc (unat (locked p))"
        using acquire_stack_Inr(3) [OF Cons.prems(1)] by simp
      with Cons.prems(2) have "Suc d \<le> unat (locked p1)" by simp
      moreover from Cons.prems(3) Acquire have "balanced (Suc d) ops" by simp
      ultimately have "\<forall>q\<in>set (trace os ops p1). pool_inv q"
        using Cons.IH inv1 by blast
      with Acquire a Inr inv1 show ?thesis by simp
    qed
  next
    case Release
    with Cons.prems(3) have d: "0 < d" and b: "balanced (d - 1) ops"
      by simp_all
    from d Cons.prems(2) have nz: "locked p \<noteq> 0"
      by auto
    then have "unat (locked p - 1) = unat (locked p) - 1"
      by (simp add: unat_minus_one)
    with Cons.prems(2) have "d - 1 \<le> unat (locked (release_stack p))"
      by (simp add: release_stack_def)
    moreover have "pool_inv (release_stack p)"
      using Cons.prems(1) nz by (rule release_stack_inv)
    ultimately have "\<forall>q\<in>set (trace os ops (release_stack p)). pool_inv q"
      using Cons.IH b by blast
    with Release \<open>pool_inv (release_stack p)\<close> show ?thesis by simp
  qed
qed

text \<open>
  Claim C9. Run from the initial pool any sequence of \<open>acquire_stack\<close> and
  \<open>release_stack\<close> calls in which no prefix has more releases than acquires. After
  every call made, the last one included when it ends the process, the pool satisfies
  \<open>0 \<le> locked \<le> allocated \<le> DEFAULT_MAX_STACKS\<close>.
\<close>

theorem pool_invariant_balanced:
  assumes "balanced 0 ops"
  shows "\<forall>q\<in>set (trace os ops pool_init).
           0 \<le> locked q \<and> locked q \<le> allocated q \<and> allocated q \<le> DEFAULT_MAX_STACKS"
  using trace_inv [OF pool_init_inv _ assms, of os] by (simp add: pool_inv_def)

text \<open>The sequence acquire, acquire, release, acquire, with its counters after each call.\<close>

theorem pool_invariant_balanced_witness:
  "balanced 0 [Acquire, Acquire, Release, Acquire] \<and>
   list_all pool_inv (trace os_example [Acquire, Acquire, Release, Acquire] pool_init) \<and>
   map locked (trace os_example [Acquire, Acquire, Release, Acquire] pool_init) = [1, 2, 1, 2] \<and>
   map allocated (trace os_example [Acquire, Acquire, Release, Acquire] pool_init) = [1, 2, 2, 2]"
proof -
  have b: "balanced 0 [Acquire, Acquire, Release, Acquire]" by simp
  have l: "map locked (trace os_example [Acquire, Acquire, Release, Acquire] pool_init)
             = [1, 2, 1, 2]"
    by (simp add: acquire_stack_def release_stack_def pool_init_def stack_alloc_def
        os_example_def DEFAULT_LARGE_STACK_def DEFAULT_MAX_STACKS_def Let_def)
  have a: "map allocated (trace os_example [Acquire, Acquire, Release, Acquire] pool_init)
             = [1, 2, 2, 2]"
    by (simp add: acquire_stack_def release_stack_def pool_init_def stack_alloc_def
        os_example_def DEFAULT_LARGE_STACK_def DEFAULT_MAX_STACKS_def Let_def)
  from pool_invariant_balanced [OF b, of os_example]
  have "list_all pool_inv (trace os_example [Acquire, Acquire, Release, Acquire] pool_init)"
    by (simp add: list_all_iff pool_inv_def)
  with b l a show ?thesis by blast
qed

lemma os_example_nonzero:
  assumes "i < 1024"
  shows "os_example i \<noteq> 0"
proof -
  have "os_example i = of_nat (4096 + i * 2 ^ 36)"
    by (simp add: os_example_def DEFAULT_LARGE_STACK_def)
  moreover have "4096 + i * 2 ^ 36 < (2 :: nat) ^ 64"
    using assms by simp
  ultimately have "unat (os_example i) = 4096 + i * 2 ^ 36"
    by (simp only: unat_of_nat64)
  then show ?thesis
    by (auto simp: unat_eq_0 simp flip: unat_eq_0)
qed

lemma acquire_n_fresh:
  assumes "\<forall>i<1024. os i \<noteq> 0" "locked p = allocated p" "unat (allocated p) + n \<le> 1024"
  shows "fst (acquire_n os n p) = Inr (map (\<lambda>k. unat (locked p) + k) [0..<n]) \<and>
         locked (snd (acquire_n os n p)) = locked p + of_nat n \<and>
         allocated (snd (acquire_n os n p)) = allocated p + of_nat n"
  using assms(2,3)
proof (induction n arbitrary: p)
  case 0
  show ?case by simp
next
  case (Suc n)
  let ?i = "unat (allocated p)"
  let ?p1 = "p\<lparr>allocated := allocated p + 1,
               stacks := (stacks p)(?i := snd (stack_alloc (os ?i) DEFAULT_LARGE_STACK)),
               locked := locked p + 1\<rparr>"
  from Suc.prems(2) have b: "?i < 1024" by simp
  then have ne: "allocated p \<noteq> DEFAULT_MAX_STACKS"
    using max_stacks_unat by auto
  from b assms(1) have "os ?i \<noteq> 0" by simp
  with ne Suc.prems(1) have a: "acquire_stack os p = (Inr (unat (locked p)), ?p1)"
    by (simp add: acquire_stack_def Let_def stack_alloc_def)
  have s: "unat (allocated p + 1) = Suc ?i"
    using b by (rule unat_succ_bounded)
  have "locked ?p1 = allocated ?p1" "unat (allocated ?p1) + n \<le> 1024"
    using Suc.prems s by simp_all
  note ih = Suc.IH [OF this]
  obtain r q where e: "acquire_n os n ?p1 = (r, q)"
    by (cases "acquire_n os n ?p1")
  from ih e s Suc.prems(1) have
    r: "r = Inr (map (\<lambda>k. Suc (unat (locked p)) + k) [0..<n])" and
    lq: "locked q = locked p + of_nat (Suc n)" and
    aq: "allocated q = allocated p + of_nat (Suc n)"
    by (simp_all add: add.assoc)
  show ?case
    by (simp add: a e r lq aq map_upt_Suc del: upt_Suc of_nat_Suc)
qed

text \<open>
  Claim C8. When \<open>allocated\<close> and \<open>locked\<close> both equal \<open>DEFAULT_MAX_STACKS\<close>, a call
  of \<open>acquire_stack\<close> takes the fatal path: it aborts, hands out no stack, and leaves
  the counters and the slot table as they were. The outcome is a function of the pool
  alone, so every such call takes the same path.
\<close>

theorem acquire_stack_exhausted:
  assumes "allocated p = DEFAULT_MAX_STACKS" "locked p = DEFAULT_MAX_STACKS"
  shows "acquire_stack os p = (Inl Abort, p)"
  using assms by (simp add: acquire_stack_def)

text \<open>The pool after 1024 acquires from the initial pool, none released.\<close>

theorem acquire_stack_exhausted_witness:
  "allocated (snd (acquire_n os_example 1024 pool_init)) = DEFAULT_MAX_STACKS \<and>
   locked (snd (acquire_n os_example 1024 pool_init)) = DEFAULT_MAX_STACKS \<and>
   acquire_stack os_example (snd (acquire_n os_example 1024 pool_init))
     = (Inl Abort, snd (acquire_n os_example 1024 pool_init))"
proof -
  let ?q = "snd (acquire_n os_example 1024 pool_init)"
  have "\<forall>i<1024. os_example i \<noteq> 0"
    by (simp add: os_example_nonzero)
  from acquire_n_fresh [OF this, of pool_init 1024]
  have a: "allocated ?q = DEFAULT_MAX_STACKS" and l: "locked ?q = DEFAULT_MAX_STACKS"
    by (simp_all add: pool_init_def DEFAULT_MAX_STACKS_def)
  from acquire_stack_exhausted [OF a l, of os_example] a l show ?thesis
    by simp
qed

lemma acquire_n_Inr:
  assumes "pool_inv p" "acquire_n os n p = (Inr ss, p1)"
  shows "ss = map (\<lambda>k. unat (locked p) + k) [0..<n] \<and>
         locked p1 = locked p + of_nat n \<and>
         unat (locked p) + n \<le> unat (allocated p1)"
  using assms
proof (induction n arbitrary: p ss)
  case 0
  then show ?case by (simp add: pool_inv_unat)
next
  case (Suc n)
  from Suc.prems(2) obtain i q js where
    a: "acquire_stack os p = (Inr i, q)" and
    r: "acquire_n os n q = (Inr js, p1)" and
    ss: "ss = i # js"
    by (auto split: prod.splits sum.splits)
  have invq: "pool_inv q"
    using acquire_stack_inv [OF Suc.prems(1), of os] a by simp
  note f = acquire_stack_Inr [OF Suc.prems(1) a]
  from Suc.IH [OF invq r] f ss show ?case
    by (simp add: map_upt_Suc del: upt_Suc)
qed

lemma release_n_eq: "release_n n q = q\<lparr>locked := locked q - of_nat n\<rparr>"
  by (induction n arbitrary: q) (simp_all add: release_stack_def)

lemma acquire_n_reuse:
  assumes "unat (locked q) + n \<le> unat (allocated q)"
  shows "acquire_n os n q =
           (Inr (map (\<lambda>k. unat (locked q) + k) [0..<n]), q\<lparr>locked := locked q + of_nat n\<rparr>)"
  using assms
proof (induction n arbitrary: q)
  case 0
  show ?case by simp
next
  case (Suc n)
  let ?q1 = "q\<lparr>locked := locked q + 1\<rparr>"
  from Suc.prems have lt: "unat (locked q) < unat (allocated q)" by simp
  then have s: "unat (locked q + 1) = Suc (unat (locked q))"
    by (rule unat_succ_below)
  with Suc.prems have "unat (locked ?q1) + n \<le> unat (allocated ?q1)" by simp
  from Suc.IH [OF this] s acquire_stack_reuse [OF lt, of os] show ?case
    by (simp add: map_upt_Suc add.assoc del: upt_Suc)
qed

text \<open>
  Claim C3. From a reachable pool, let \<open>n\<close> calls of \<open>acquire_stack\<close> succeed and hand
  out the slots \<open>ss\<close>. After \<open>n\<close> calls of \<open>release_stack\<close> the counter \<open>locked\<close> has
  the value it had before, and \<open>n\<close> further acquires succeed, hand out the same slots
  \<open>ss\<close> in the same order, and end in the pool the first \<open>n\<close> acquires ended in.
\<close>

theorem acquire_release_lifo:
  assumes "reachable os p" "acquire_n os n p = (Inr ss, p1)"
  shows "locked (release_n n p1) = locked p \<and>
         acquire_n os n (release_n n p1) = (Inr ss, p1)"
proof -
  have inv: "pool_inv p" using assms(1) by (rule reachable_inv)
  note f = acquire_n_Inr [OF inv assms(2)]
  let ?q = "release_n n p1"
  have q: "?q = p1\<lparr>locked := locked p\<rparr>"
    using f by (simp add: release_n_eq)
  then have "unat (locked ?q) + n \<le> unat (allocated ?q)"
    using f by simp
  from acquire_n_reuse [OF this, of os] q f show ?thesis
    by simp
qed

text \<open>Three acquires from the initial pool hand out the slots 0, 1, 2, twice.\<close>

theorem acquire_release_lifo_witness:
  "reachable os_example pool_init \<and>
   fst (acquire_n os_example 3 pool_init) = Inr [0, 1, 2] \<and>
   locked (release_n 3 (snd (acquire_n os_example 3 pool_init))) = locked pool_init \<and>
   fst (acquire_n os_example 3 (release_n 3 (snd (acquire_n os_example 3 pool_init)))) = Inr [0, 1, 2]"
proof -
  let ?p1 = "snd (acquire_n os_example 3 pool_init)"
  have f: "fst (acquire_n os_example 3 pool_init) = Inr [0, 1, 2]"
    by (simp add: numeral_3_eq_3 acquire_stack_def pool_init_def stack_alloc_def
        os_example_def DEFAULT_LARGE_STACK_def DEFAULT_MAX_STACKS_def Let_def)
  have a: "acquire_n os_example 3 pool_init = (Inr [0, 1, 2], ?p1)"
    by (simp add: prod_eq_iff f)
  have r: "reachable os_example pool_init"
    by (rule reachable_init)
  note t = acquire_release_lifo [OF r a]
  from t have "fst (acquire_n os_example 3 (release_n 3 ?p1)) = Inr [0, 1, 2]"
    by (simp only: fst_conv)
  with t r f show ?thesis by blast
qed

section \<open>Memory: what a copy changes\<close>

lemma memcpy_at:
  assumes "d + n \<le> 2 ^ 64" "j < 2 ^ 64"
  shows "memcpy h (b + of_nat d) src n (b + of_nat j) =
           (if d \<le> j \<and> j < d + n then src ! (j - d) else h (b + of_nat j))"
  using assms
proof (induction n)
  case 0
  show ?case by auto
next
  case (Suc n)
  have "(b + of_nat d + of_nat n = b + of_nat j) \<longleftrightarrow> (of_nat (d + n) :: addr) = of_nat j"
    by simp
  also have "\<dots> \<longleftrightarrow> d + n = j"
    using Suc.prems by (intro of_nat_inj64) simp_all
  finally have e: "(b + of_nat j = b + of_nat d + of_nat n) \<longleftrightarrow> j = d + n"
    by auto
  from Suc e show ?case
    by (auto simp: less_Suc_eq)
qed

lemma load_memcpy_same:
  assumes "d + n \<le> 2 ^ 64" "length src = n"
  shows "load (memcpy h (b + of_nat d) src n) (b + of_nat d) n = src"
proof (rule nth_equalityI)
  show "length (load (memcpy h (b + of_nat d) src n) (b + of_nat d) n) = length src"
    using assms(2) by (simp add: load_def)
next
  fix k assume "k < length (load (memcpy h (b + of_nat d) src n) (b + of_nat d) n)"
  then have k: "k < n" by (simp add: load_def)
  with assms(1) have "d + k < 2 ^ 64" by simp
  from memcpy_at [OF assms(1) this, of h b src] k
  show "load (memcpy h (b + of_nat d) src n) (b + of_nat d) n ! k = src ! k"
    by (simp add: load_def add.assoc)
qed

lemma load_memcpy_other:
  assumes "d + n \<le> 2 ^ 64" "e + m \<le> 2 ^ 64" "e + m \<le> d \<or> d + n \<le> e"
  shows "load (memcpy h (b + of_nat d) src n) (b + of_nat e) m = load h (b + of_nat e) m"
proof -
  have "memcpy h (b + of_nat d) src n (b + of_nat e + of_nat k) = h (b + of_nat e + of_nat k)"
    if "k < m" for k
  proof -
    from that assms(2) have "e + k < 2 ^ 64" by simp
    from memcpy_at [OF assms(1) this, of h b src] that assms(3) show ?thesis
      by (auto simp: add.assoc)
  qed
  then show ?thesis by (simp add: load_def)
qed

text \<open>The same two facts for a copy to the address \<open>b\<close> itself.\<close>

lemma load_memcpy_same0:
  assumes "n \<le> 2 ^ 64" "length src = n"
  shows "load (memcpy h b src n) b n = src"
  using load_memcpy_same [of 0 n src h b] assms by simp

section \<open>Runs of push_back\<close>

lemma push_all_snoc: "push_all sz (ts @ [t]) s = push_back sz t (push_all sz ts s)"
  by (simp add: push_all_def)

lemma push_back_fst: "fst (push_back sz t s) = (fst s)\<lparr>bv_end := bv_end (fst s) + sz\<rparr>"
  by (cases s) (simp add: push_back_def)

lemma push_back_snd: "snd (push_back sz t s) = memcpy (snd s) (bv_end (fst s)) t (unat sz)"
  by (cases s) (simp add: push_back_def)

lemma push_all_fields:
  "bv_end (fst (push_all sz ts (v, h))) = bv_end v + of_nat (length ts * unat sz) \<and>
   bv_begin (fst (push_all sz ts (v, h))) = bv_begin v \<and>
   basic_vector.more (fst (push_all sz ts (v, h))) = basic_vector.more v"
proof (induction ts rule: rev_induct)
  case Nil
  show ?case by (simp add: push_all_def)
next
  case (snoc t ts)
  then show ?case
    by (simp add: push_all_snoc push_back_fst algebra_simps)
qed

lemma push_all_load:
  assumes "\<forall>t\<in>set ts. length t = unat sz" "length ts * unat sz \<le> 2 ^ 64" "i < length ts"
  shows "load (snd (push_all sz ts (v, h))) (bv_end v + of_nat (i * unat sz)) (unat sz) = ts ! i"
  using assms
proof (induction ts rule: rev_induct)
  case Nil
  then show ?case by simp
next
  case (snoc t ts)
  let ?s = "push_all sz ts (v, h)"
  let ?n = "length ts"
  have e: "bv_end (fst ?s) = bv_end v + of_nat (?n * unat sz)"
    using push_all_fields [of sz ts v h] by simp
  have s: "snd (push_all sz (ts @ [t]) (v, h)) =
             memcpy (snd ?s) (bv_end v + of_nat (?n * unat sz)) t (unat sz)"
    by (simp add: push_all_snoc push_back_snd e)
  from snoc.prems(2) have b: "?n * unat sz + unat sz \<le> 2 ^ 64" by simp
  show ?case
  proof (cases "i < ?n")
    case True
    then have "Suc i \<le> ?n" by simp
    then have "Suc i * unat sz \<le> ?n * unat sz"
      by (rule mult_le_mono1)
    then have le: "i * unat sz + unat sz \<le> ?n * unat sz" by simp
    with b have b2: "i * unat sz + unat sz \<le> 2 ^ 64" by simp
    from le have "i * unat sz + unat sz \<le> ?n * unat sz \<or> ?n * unat sz + unat sz \<le> i * unat sz"
      by simp
    from load_memcpy_other [OF b b2 this]
    have "load (snd (push_all sz (ts @ [t]) (v, h))) (bv_end v + of_nat (i * unat sz)) (unat sz) =
            load (snd ?s) (bv_end v + of_nat (i * unat sz)) (unat sz)"
      by (simp only: s)
    also have "\<dots> = ts ! i"
      using snoc.IH snoc.prems b True by simp
    finally show ?thesis using True by (simp add: nth_append)
  next
    case False
    with snoc.prems(3) have i: "i = ?n" by simp
    from snoc.prems(1) have "length t = unat sz" by simp
    from load_memcpy_same [OF b this] show ?thesis
      by (simp only: s i nth_append_length)
  qed
qed

section \<open>The base container\<close>

text \<open>
  Claim C2. Push the values \<open>ts\<close>, each of \<open>sizeof(T)\<close> bytes, on a fresh
  \<open>basic_vector\<close> at \<open>p\<close>, the whole run within the address space. For every index
  \<open>i\<close> below the number of values pushed, \<open>operator[](i)\<close> passes its assertion and
  returns the address \<open>p + i * sizeof(T)\<close>, and the object there is the \<open>i\<close>-th value
  pushed.
\<close>

theorem push_back_index_roundtrip:
  assumes "\<forall>t\<in>set ts. length t = unat sz" "sz \<noteq> 0"
    "length ts * unat sz < 2 ^ 64" "i < length ts"
  shows "op_index sz (fst (push_all sz ts (basic_vector_ctor p, h))) (of_nat i)
           = Inr (p + of_nat i * sz) \<and>
         load (snd (push_all sz ts (basic_vector_ctor p, h))) (p + of_nat i * sz) (unat sz)
           = ts ! i"
proof -
  let ?v = "fst (push_all sz ts (basic_vector_ctor p, h))"
  note f = push_all_fields [of sz ts "basic_vector_ctor p" h]
  have span: "bv_end ?v - bv_begin ?v = of_nat (length ts * unat sz)"
    using f by (simp add: basic_vector_ctor_def)
  have "0 < unat sz"
    using assms(2) by (simp add: unat_gt_0)
  with assms(4) have lt: "i * unat sz < length ts * unat sz" by simp
  from lt assms(3) have "i * unat sz < 2 ^ 64" by (rule less_trans)
  then have "unat (of_nat i * sz) = i * unat sz"
    using unat_of_nat64 [of "i * unat sz"] by simp
  moreover have "unat (bv_end ?v - bv_begin ?v) = length ts * unat sz"
    using assms(3) by (simp only: span unat_of_nat64)
  ultimately have "of_nat i * sz < bv_end ?v - bv_begin ?v"
    using lt by (simp add: word_less_nat_alt)
  then have "op_index sz ?v (of_nat i) = Inr (p + of_nat i * sz)"
    using f by (simp add: op_index_def basic_vector_ctor_def)
  moreover have "load (snd (push_all sz ts (basic_vector_ctor p, h))) (p + of_nat i * sz) (unat sz)
           = ts ! i"
    using push_all_load [OF assms(1) _ assms(4), of "basic_vector_ctor p" h] assms(3)
    by (simp add: basic_vector_ctor_def)
  ultimately show ?thesis by simp
qed

text \<open>Three 4-byte values pushed at address 4096; index 1 reads the second.\<close>

theorem push_back_index_roundtrip_witness:
  "op_index 4 (fst (push_all 4 [[1, 0, 0, 0], [2, 0, 0, 0], [3, 0, 0, 0]]
       (basic_vector_ctor 4096, heap_zero))) 1 = Inr 4100 \<and>
   load (snd (push_all 4 [[1, 0, 0, 0], [2, 0, 0, 0], [3, 0, 0, 0]]
       (basic_vector_ctor 4096, heap_zero))) 4100 4 = [2, 0, 0, 0]"
  using push_back_index_roundtrip [of "[[1, 0, 0, 0], [2, 0, 0, 0], [3, 0, 0, 0]]" 4 1 4096 heap_zero]
  by simp

text \<open>
  Claim C10. A \<open>basic_vector\<close> built at \<open>p\<close> by pushing the values \<open>ts\<close>, at least one,
  without wrapping around the address space: \<open>pop\<close> passes its assertion and leaves the
  vector that the pushes of all but the last value build, whose byte span is that of one
  element less. The reference returned is the new \<open>end\<close>, and the bytes there are still
  the last value pushed.
\<close>

theorem pop_returns_last:
  assumes "\<forall>t\<in>set ts. length t = unat sz" "sz \<noteq> 0" "ts \<noteq> []"
    "unat p + length ts * unat sz < 2 ^ 64"
  shows "pop sz (fst (push_all sz ts (basic_vector_ctor p, h)))
           = Inr (p + of_nat (length ts - 1) * sz,
                  fst (push_all sz (butlast ts) (basic_vector_ctor p, h))) \<and>
         bv_end (fst (push_all sz (butlast ts) (basic_vector_ctor p, h)))
           = p + of_nat (length ts - 1) * sz \<and>
         bv_end (fst (push_all sz (butlast ts) (basic_vector_ctor p, h)))
           - bv_begin (fst (push_all sz (butlast ts) (basic_vector_ctor p, h)))
           = of_nat (length ts - 1) * sz \<and>
         load (snd (push_all sz ts (basic_vector_ctor p, h)))
           (p + of_nat (length ts - 1) * sz) (unat sz) = last ts"
proof -
  let ?s = "push_all sz ts (basic_vector_ctor p, h)"
  let ?v = "fst ?s"
  let ?w = "fst (push_all sz (butlast ts) (basic_vector_ctor p, h))"
  let ?n = "length ts"
  note f = push_all_fields [of sz ts "basic_vector_ctor p" h]
  note g = push_all_fields [of sz "butlast ts" "basic_vector_ctor p" h]
  have n: "0 < ?n" using assms(3) by simp
  have szp: "0 < unat sz" using assms(2) by (simp add: unat_gt_0)
  have e: "bv_end ?v = p + of_nat (?n * unat sz)" and b: "bv_begin ?v = p"
    using f by (simp_all add: basic_vector_ctor_def)
  have ew: "bv_end ?w = p + of_nat (?n - 1) * sz" and bw: "bv_begin ?w = p"
    using g by (simp_all add: basic_vector_ctor_def)
  from n obtain m where m: "?n = Suc m" by (cases "?n") simp_all
  have "?n * unat sz = (?n - 1) * unat sz + unat sz"
    by (simp add: m)
  then have "(of_nat (?n * unat sz) :: addr) = of_nat (?n - 1) * sz + sz"
    by simp
  then have bk: "bv_end ?v - sz = p + of_nat (?n - 1) * sz"
    by (simp add: e)
  have w: "?v\<lparr>bv_end := bv_end ?v - sz\<rparr> = ?w"
    using f g bk by (simp add: basic_vector_ctor_def)
  then have w2: "?v\<lparr>bv_end := p + of_nat (?n - 1) * sz\<rparr> = ?w"
    by (simp only: bk)
  have "0 < ?n * unat sz" using n szp by simp
  with assms(4) have "p < p + of_nat (?n * unat sz)"
    by (intro below_plus_of_nat)
  then have lt: "bv_begin ?v < bv_end ?v" by (simp add: e b)
  have 1: "pop sz ?v = Inr (p + of_nat (?n - 1) * sz, ?w)"
    by (simp only: pop_def lt if_True bk w2)
  have "load (snd ?s) (bv_end (basic_vector_ctor p) + of_nat ((?n - 1) * unat sz)) (unat sz)
          = ts ! (?n - 1)"
    using assms(1,4) n by (intro push_all_load) simp_all
  then have 2: "load (snd ?s) (p + of_nat (?n - 1) * sz) (unat sz) = last ts"
    using assms(3) by (simp add: basic_vector_ctor_def last_conv_nth)
  from 1 2 ew bw show ?thesis by simp
qed

text \<open>Two 4-byte values pushed at address 4096, then \<open>pop\<close>.\<close>

theorem pop_returns_last_witness:
  "pop 4 (fst (push_all 4 [[1, 0, 0, 0], [2, 0, 0, 0]] (basic_vector_ctor 4096, heap_zero)))
     = Inr (4100, fst (push_all 4 [[1, 0, 0, 0]] (basic_vector_ctor 4096, heap_zero))) \<and>
   bv_end (fst (push_all 4 [[1, 0, 0, 0]] (basic_vector_ctor 4096, heap_zero))) = 4100 \<and>
   load (snd (push_all 4 [[1, 0, 0, 0], [2, 0, 0, 0]] (basic_vector_ctor 4096, heap_zero))) 4100 4
     = [2, 0, 0, 0]"
  using pop_returns_last [of "[[1, 0, 0, 0], [2, 0, 0, 0]]" 4 4096 heap_zero]
  by simp

text \<open>
  Claim C1 says that \<open>size()\<close> is the number of pushes minus the number of pops. The
  source computes \<open>(begin - end) / sizeof(T)\<close>, with the operands of the subtraction
  the wrong way round (the assertion of \<open>operator[]\<close> has \<open>end - begin\<close>): after one
  \<open>push_back\<close> of a 4-byte value on a fresh vector, \<open>size()\<close> is
  \<open>(2^64 - 4) / 4 = 2^62 - 1\<close>, not 1.
\<close>

theorem size_after_one_push:
  "size_bv 4 (fst (push_back 4 [1, 0, 0, 0] (basic_vector_ctor 4096, heap_zero)))
     = 4611686018427387903"
  by (simp add: size_bv_def push_back_def basic_vector_ctor_def)

section \<open>The pool vector\<close>

text \<open>A pointer written to memory and read back is the same pointer.\<close>

lemma encode_ptr_length: "length (encode_ptr p) = 8"
  by (simp add: encode_ptr_def)

lemma byte_step:
  fixes q :: addr
  shows "ucast (ucast q :: byte) OR push_bit 8 (take_bit (8 * m) (drop_bit 8 q))
           = take_bit (8 + 8 * m) q"
  by (rule bit_word_eqI) (auto simp: bit_simps)

lemma decode_bytes_from:
  "foldr (\<lambda>b w. ucast b OR push_bit 8 w)
     (map (\<lambda>k. ucast (drop_bit (8 * k) p) :: byte) [j..<j + m]) (0 :: addr)
     = take_bit (8 * m) (drop_bit (8 * j) p)"
proof (induction m arbitrary: j)
  case 0
  show ?case by simp
next
  case (Suc m)
  have u: "[j..<j + Suc m] = j # [Suc j..<Suc j + m]"
    by (simp add: upt_rec)
  have d: "drop_bit (8 * Suc j) p = drop_bit 8 (drop_bit (8 * j) p)"
    by (simp add: drop_bit_drop_bit add.commute)
  show ?case
    using Suc.IH [of "Suc j"] byte_step [of "drop_bit (8 * j) p" m]
    by (simp only: u d list.map foldr.simps o_apply) simp
qed

lemma decode_encode_ptr: "decode_ptr (encode_ptr p) = p"
  using decode_bytes_from [of p 0 8]
  by (simp add: decode_ptr_def encode_ptr_def take_bit_word_eq_self)

lemma alloc_fresh:
  assumes "bv_end (free_list v) = bv_begin (free_list v)" "sz \<noteq> 0"
    "unat (bv_begin v) \<le> unat (bv_end v)" "unat (bv_end v) + unat sz < 2 ^ 64"
  shows "alloc sz t (v, h) =
           Inr (bv_end v, v\<lparr>bv_end := bv_end v + sz\<rparr>, memcpy h (bv_end v) t (unat sz))"
proof -
  have "0 < unat sz" using assms(2) by (simp add: unat_gt_0)
  with assms(3,4) have "bv_begin v < bv_end v + sz"
    by (simp add: word_less_nat_alt unat_plus_word)
  with assms(1) show ?thesis
    by (simp add: alloc_def size_bv_def push_back_def bv_back_def)
qed

lemma reuseable_ok:
  assumes "bv_begin v \<le> r" "r < bv_end v"
  shows "reuseable r (v, h) =
           Inr (v\<lparr>free_list := (free_list v)\<lparr>bv_end := bv_end (free_list v) + sizeof_ptr\<rparr>\<rparr>,
                memcpy h (bv_end (free_list v)) (encode_ptr r) (unat sizeof_ptr))"
  using assms by (simp add: reuseable_def push_back_def)

lemma minus_eight_div: "(- 8 :: addr) div 8 \<noteq> 0"
  by simp

lemma alloc_reuse:
  assumes "bv_end (free_list v) = bv_begin (free_list v) + sizeof_ptr"
    "unat (bv_begin (free_list v)) + 8 < 2 ^ 64"
    "load h (bv_begin (free_list v)) (unat sizeof_ptr) = encode_ptr r"
  shows "alloc sz t (v, h) =
           Inr (r, v\<lparr>free_list := (free_list v)\<lparr>bv_end := bv_begin (free_list v)\<rparr>\<rparr>,
                memcpy h r t (unat sz))"
proof -
  let ?fl = "free_list v"
  have s: "size_bv sizeof_ptr ?fl \<noteq> 0"
    using minus_eight_div by (simp add: size_bv_def assms(1) sizeof_ptr_def)
  have "bv_begin ?fl < bv_begin ?fl + sizeof_ptr"
    using assms(2) by (simp add: word_less_nat_alt unat_plus_word sizeof_ptr_def)
  then have p: "pop sizeof_ptr ?fl = Inr (bv_begin ?fl, ?fl\<lparr>bv_end := bv_begin ?fl\<rparr>)"
    by (simp add: pop_def assms(1))
  show ?thesis
    by (simp add: alloc_def s p assms(3) decode_encode_ptr)
qed

text \<open>
  Claim C5. An empty \<open>vector_pool\<close> with its elements at \<open>p\<close> and its free list at \<open>f\<close>
  (neither region wrapping around the address space). The calls \<open>alloc(a)\<close>,
  \<open>alloc(b)\<close>, \<open>reuseable\<close> of the first result, \<open>alloc(c)\<close> all pass their assertions;
  the first and the last \<open>alloc\<close> return the same address \<open>p\<close>, and the object there
  is then \<open>c\<close>.
\<close>

theorem pool_alloc_reuses_slot:
  assumes "length c = unat sz" "sz \<noteq> 0"
    "unat p + 2 * unat sz < 2 ^ 64" "unat f + 8 < 2 ^ 64"
  shows "\<exists>v1 h1 rb v2 h2 v3 h3 v4 h4.
           alloc sz a (\<lparr>bv_end = p, bv_begin = p, free_list = basic_vector_ctor f\<rparr>, h)
             = Inr (p, v1, h1) \<and>
           alloc sz b (v1, h1) = Inr (rb, v2, h2) \<and>
           reuseable p (v2, h2) = Inr (v3, h3) \<and>
           alloc sz c (v3, h3) = Inr (p, v4, h4) \<and>
           load h4 p (unat sz) = c"
proof -
  let ?v0 = "\<lparr>bv_end = p, bv_begin = p, free_list = basic_vector_ctor f\<rparr>"
  let ?v1 = "?v0\<lparr>bv_end := p + sz\<rparr>"
  let ?h1 = "memcpy h p a (unat sz)"
  let ?v2 = "?v1\<lparr>bv_end := p + sz + sz\<rparr>"
  let ?h2 = "memcpy ?h1 (p + sz) b (unat sz)"
  let ?v3 = "?v2\<lparr>free_list := (basic_vector_ctor f)\<lparr>bv_end := f + sizeof_ptr\<rparr>\<rparr>"
  let ?h3 = "memcpy ?h2 f (encode_ptr p) (unat sizeof_ptr)"
  let ?v4 = "?v3\<lparr>free_list := basic_vector_ctor f\<rparr>"
  let ?h4 = "memcpy ?h3 p c (unat sz)"
  have szp: "0 < unat sz" using assms(2) by (simp add: unat_gt_0)
  have u1: "unat (p + sz) = unat p + unat sz"
    using assms(3) by (intro unat_plus_word) simp
  have "unat (p + sz) + unat sz < 2 ^ 64"
    using assms(3) u1 by simp
  then have "unat (p + sz + sz) = unat (p + sz) + unat sz"
    by (rule unat_plus_word)
  then have u2: "unat (p + sz + sz) = unat p + unat sz + unat sz"
    by (simp only: u1)
  have 1: "alloc sz a (?v0, h) = Inr (p, ?v1, ?h1)"
    using alloc_fresh [of ?v0 sz a h] assms(2,3) by (simp add: basic_vector_ctor_def)
  have 2: "alloc sz b (?v1, ?h1) = Inr (p + sz, ?v2, ?h2)"
    using alloc_fresh [of ?v1 sz b ?h1] assms(2,3) u1 by (simp add: basic_vector_ctor_def)
  have "p < p + sz + sz"
    using szp u2 by (simp add: word_less_nat_alt)
  then have 3: "reuseable p (?v2, ?h2) = Inr (?v3, ?h3)"
    using reuseable_ok [of ?v2 p ?h2] by (simp add: basic_vector_ctor_def)
  have "load ?h3 f (unat sizeof_ptr) = encode_ptr p"
    by (rule load_memcpy_same0) (simp_all add: sizeof_ptr_def encode_ptr_length)
  then have 4: "alloc sz c (?v3, ?h3) = Inr (p, ?v4, ?h4)"
    using alloc_reuse [of ?v3 ?h3 p sz c] assms(4) by (simp add: basic_vector_ctor_def)
  have "unat sz \<le> 2 ^ 64"
    using unat_lt64 [of sz] by simp
  then have 5: "load ?h4 p (unat sz) = c"
    using assms(1) by (intro load_memcpy_same0) simp_all
  from 1 2 3 4 5 show ?thesis by blast
qed

text \<open>Elements of 4 bytes at 4096, free list at 8192: the values 1, 2, then 4.\<close>

theorem pool_alloc_reuses_slot_witness:
  "\<exists>v1 h1 rb v2 h2 v3 h3 v4 h4.
     alloc 4 [1, 0, 0, 0]
       (\<lparr>bv_end = 4096, bv_begin = 4096, free_list = basic_vector_ctor 8192\<rparr>, heap_zero)
       = Inr (4096, v1, h1) \<and>
     alloc 4 [2, 0, 0, 0] (v1, h1) = Inr (rb, v2, h2) \<and>
     reuseable 4096 (v2, h2) = Inr (v3, h3) \<and>
     alloc 4 [4, 0, 0, 0] (v3, h3) = Inr (4096, v4, h4) \<and>
     load h4 4096 4 = [4, 0, 0, 0]"
  using pool_alloc_reuses_slot [of "[4, 0, 0, 0]" 4 4096 8192 "[1, 0, 0, 0]" heap_zero "[2, 0, 0, 0]"]
  by simp

section \<open>The growable vector\<close>

lemma vector_ctor_Inr:
  assumes "pool_inv p" "vector_ctor os p = (Inr (v, i), p1)"
  shows "acquire_stack os p = (Inr i, p1)" "v = basic_vector_ctor (sp (stacks p1 i))"
  using assms(2) by (auto simp: vector_ctor_def split: prod.splits sum.splits)

lemma release_after_acquire:
  assumes "pool_inv p" "acquire_stack os p = (Inr i, p1)"
  shows "locked (release_stack p1) = locked p"
    "unat (locked (release_stack p1)) < unat (allocated (release_stack p1))"
    "release_stack p1\<lparr>locked := locked p + 1\<rparr> = p1"
    "i = unat (locked p)"
proof -
  note f = acquire_stack_Inr [OF assms]
  show "locked (release_stack p1) = locked p"
    using f(2) by (simp add: release_stack_def)
  then show "unat (locked (release_stack p1)) < unat (allocated (release_stack p1))"
    using f(3,4) by (simp add: release_stack_def)
  show "release_stack p1\<lparr>locked := locked p + 1\<rparr> = p1"
    using f(2) by (simp add: release_stack_def)
  show "i = unat (locked p)" by (rule f(1))
qed

lemma pool_carved_fields:
  "locked pool_carved = 0" "allocated pool_carved = 1"
  "sp (stacks pool_carved 0) = 4116" "memory (stacks pool_carved 0) = 4096"
  by (simp_all add: pool_carved_def vector_max_ctor_def acquire_stack_def release_stack_def
      pool_init_def stack_alloc_def os_example_def DEFAULT_LARGE_STACK_def
      DEFAULT_MAX_STACKS_def Let_def)

lemma pool_carved_inv: "pool_inv pool_carved"
  by (simp add: pool_inv_unat pool_carved_fields)

text \<open>
  Claim C6, as amended. Construct a growable \<open>vector\<close> from any pool that satisfies the
  pool invariant, whatever the \<open>sp\<close> of its slots (other containers may have carved
  from them), push any values, and destroy it. The destructor restores \<open>locked\<close> and
  changes no slot. The slot table is then the one before the construction, but for the
  slot the construction materialised, if it did. The \<open>sp\<close> of the vector's stack is still
  the vector's \<open>begin\<close>: the pushes moved only the vector's own \<open>end\<close>, so \<open>sp\<close> is neither
  advanced nor rewound. The next construction hands out the same slot and builds the same
  vector, at the same address.
\<close>

theorem vector_destroy_keeps_frontier:
  assumes "pool_inv p" "vector_ctor os p = (Inr (v, i), p1)"
  shows "locked (vector_dtor p1) = locked p \<and>
         stacks (vector_dtor p1) = stacks p1 \<and>
         stacks (vector_dtor p1) =
           (if allocated p = locked p
            then (stacks p)(i := snd (stack_alloc (os i) DEFAULT_LARGE_STACK))
            else stacks p) \<and>
         bv_begin v = sp (stacks p1 i) \<and>
         sp (stacks (vector_dtor p1) i) = bv_begin (fst (push_all sz ts (v, h))) \<and>
         vector_ctor os (vector_dtor p1) = (Inr (v, i), p1)"
proof -
  note inv = assms(1)
  note c = vector_ctor_Inr [OF inv assms(2)]
  note r = release_after_acquire [OF inv c(1)]
  have 1: "locked (vector_dtor p1) = locked p"
    using r(1) by (simp add: vector_dtor_def)
  have 2: "stacks (vector_dtor p1) = stacks p1"
    by (simp add: vector_dtor_def release_stack_def)
  have "stacks p1 =
          (if allocated p = locked p
           then (stacks p)(i := snd (stack_alloc (os i) DEFAULT_LARGE_STACK))
           else stacks p)"
    using c(1) r(4) by (auto simp: acquire_stack_def Let_def split: if_splits)
  then have 3: "stacks (vector_dtor p1) =
          (if allocated p = locked p
           then (stacks p)(i := snd (stack_alloc (os i) DEFAULT_LARGE_STACK))
           else stacks p)"
    by (simp only: 2)
  have 4: "bv_begin v = sp (stacks p1 i)"
    by (simp add: c(2) basic_vector_ctor_def)
  have 5: "sp (stacks (vector_dtor p1) i) = bv_begin (fst (push_all sz ts (v, h)))"
    using push_all_fields [of sz ts v h] by (simp add: 2 c(2) basic_vector_ctor_def)
  have "acquire_stack os (release_stack p1) = (Inr i, p1)"
    using acquire_stack_reuse [OF r(2), of os] r(1,3,4) by simp
  then have 6: "vector_ctor os (vector_dtor p1) = (Inr (v, i), p1)"
    by (simp add: vector_ctor_def vector_dtor_def c(2))
  from 1 2 3 4 5 6 show ?thesis by blast
qed

text \<open>
  A vector constructed while a carve is live on its stack, as in the repository's test
  (\<open>vm\<close>, then \<open>v1\<close>): it starts at the carved frontier 4116, and after its destruction
  \<open>sp\<close> is 4116, not the base 4096 of the reservation.
\<close>

theorem vector_destroy_keeps_frontier_witness:
  "pool_inv pool_carved \<and>
   fst (vector_ctor os_example pool_carved) = Inr (basic_vector_ctor 4116, 0) \<and>
   locked (vector_dtor (snd (vector_ctor os_example pool_carved))) = 0 \<and>
   stacks (vector_dtor (snd (vector_ctor os_example pool_carved))) = stacks pool_carved \<and>
   sp (stacks (vector_dtor (snd (vector_ctor os_example pool_carved))) 0) = 4116 \<and>
   memory (stacks (vector_dtor (snd (vector_ctor os_example pool_carved))) 0) = 4096 \<and>
   fst (vector_ctor os_example (vector_dtor (snd (vector_ctor os_example pool_carved))))
     = Inr (basic_vector_ctor 4116, 0)"
proof -
  let ?p1 = "snd (vector_ctor os_example pool_carved)"
  have f: "fst (vector_ctor os_example pool_carved) = Inr (basic_vector_ctor 4116, 0)"
    by (simp add: vector_ctor_def acquire_stack_def pool_carved_fields)
  have a: "vector_ctor os_example pool_carved = (Inr (basic_vector_ctor 4116, 0), ?p1)"
    by (simp add: prod_eq_iff f)
  note t = vector_destroy_keeps_frontier
    [OF pool_carved_inv a, of 4 "[[1, 0, 0, 0]]" heap_zero]
  from t have 1: "locked (vector_dtor ?p1) = 0"
    by (simp add: pool_carved_fields)
  from t have "stacks (vector_dtor ?p1) =
      (if allocated pool_carved = locked pool_carved
       then (stacks pool_carved)(0 := snd (stack_alloc (os_example 0) DEFAULT_LARGE_STACK))
       else stacks pool_carved)"
    by blast
  then have 2: "stacks (vector_dtor ?p1) = stacks pool_carved"
    by (simp add: pool_carved_fields)
  from 2 have 3: "sp (stacks (vector_dtor ?p1) 0) = 4116"
    and 4: "memory (stacks (vector_dtor ?p1) 0) = 4096"
    by (simp_all add: pool_carved_fields)
  from t have 5: "fst (vector_ctor os_example (vector_dtor ?p1)) = Inr (basic_vector_ctor 4116, 0)"
    by simp
  from pool_carved_inv f 1 2 3 4 5 show ?thesis by blast
qed

text \<open>
  Claim C6 as stated has the stack's \<open>sp\<close> left advanced past the pushed elements, so
  that each construct/destroy cycle consumes address space. In the initial pool, with the
  reservation at 4096: after one push of a 4-byte value the vector's \<open>end\<close> is 4100,
  and after the destructor the stack's \<open>sp\<close> is still 4096, below that \<open>end\<close>; the next
  vector starts at 4096 again.
\<close>

theorem vector_frontier_counterexample:
  "fst (vector_ctor os_example pool_init) = Inr (basic_vector_ctor 4096, 0) \<and>
   bv_end (fst (push_all 4 [[1, 0, 0, 0]] (basic_vector_ctor 4096, heap_zero))) = 4100 \<and>
   sp (stacks (vector_dtor (snd (vector_ctor os_example pool_init))) 0) = 4096 \<and>
   \<not> bv_end (fst (push_all 4 [[1, 0, 0, 0]] (basic_vector_ctor 4096, heap_zero)))
       \<le> sp (stacks (vector_dtor (snd (vector_ctor os_example pool_init))) 0) \<and>
   fst (vector_ctor os_example (vector_dtor (snd (vector_ctor os_example pool_init))))
     = Inr (basic_vector_ctor 4096, 0)"
  by (simp add: vector_ctor_def vector_dtor_def release_stack_def acquire_stack_def
      pool_init_def stack_alloc_def os_example_def DEFAULT_LARGE_STACK_def
      DEFAULT_MAX_STACKS_def Let_def push_all_def push_back_def
      basic_vector_ctor_def)

section \<open>The fixed-capacity vector\<close>

lemma region_disjoint:
  assumes "n1 + n2 \<le> 2 ^ 64"
  shows "region b n1 \<inter> region (b + of_nat n1) n2 = {}"
proof -
  have False if "k < n1" "k' < n2" "b + of_nat k = b + of_nat n1 + of_nat k'" for k k'
  proof -
    from that(3) have e: "(of_nat k :: addr) = of_nat (n1 + k')"
      by simp
    from that(1,2) assms have "k < 2 ^ 64" "n1 + k' < 2 ^ 64"
      by simp_all
    then have "k = n1 + k'"
      using e by (simp only: of_nat_inj64)
    with that(1) show False by simp
  qed
  then show ?thesis
    by (auto simp: region_def)
qed

lemma vector_max_ctor_Inr:
  assumes "vector_max_ctor os sz mx p = (Inr v, p1)"
  obtains q where "acquire_stack os p = (Inr (st v), q)"
    "v = \<lparr>bv_end = sp (stacks q (st v)), bv_begin = sp (stacks q (st v)), st = st v,
          capacity = sp (stacks q (st v)) + mx * sz\<rparr>"
    "p1 = release_stack (q\<lparr>stacks := (stacks q)
            (st v := (stacks q (st v))\<lparr>sp := sp (stacks q (st v)) + mx * sz\<rparr>)\<rparr>)"
  using assms
  by (auto simp: vector_max_ctor_def Let_def split: prod.splits sum.splits)

text \<open>
  Claim C4. From any pool that satisfies the pool invariant, whatever the \<open>sp\<close> of its
  slots (earlier containers may have carved from them), construct a \<open>vector_max\<close> of
  \<open>mx1\<close> elements of \<open>sz1\<close> bytes and then one of \<open>mx2\<close> elements of \<open>sz2\<close> bytes, the
  two capacities together no larger than the address space (as any two carved from one
  reservation are). The second construction succeeds on the same stack; its \<open>begin\<close> is
  the first's \<open>begin\<close> plus \<open>mx1 * sz1\<close>, which is the first's \<open>capacity\<close>; and the two
  carved regions share no byte. After each construction the stack's \<open>sp\<close> is the new
  container's \<open>capacity\<close> and the pool invariant holds again, so the statement applies to
  every two consecutive containers of a longer sequence.
\<close>

theorem vector_max_regions_adjacent:
  assumes "pool_inv p" "vector_max_ctor os sz1 mx1 p = (Inr v1, p1)"
    "unat mx1 * unat sz1 + unat mx2 * unat sz2 \<le> 2 ^ 64"
  shows "\<exists>v2 p2. vector_max_ctor os sz2 mx2 p1 = (Inr v2, p2) \<and>
           st v2 = st v1 \<and>
           bv_begin v2 = bv_begin v1 + mx1 * sz1 \<and>
           bv_begin v2 = capacity v1 \<and>
           region (bv_begin v1) (unat mx1 * unat sz1)
             \<inter> region (bv_begin v2) (unat mx2 * unat sz2) = {} \<and>
           sp (stacks p1 (st v1)) = capacity v1 \<and>
           sp (stacks p2 (st v2)) = capacity v2 \<and>
           pool_inv p1 \<and> pool_inv p2"
proof -
  note inv = assms(1)
  from assms(2) obtain q where
    a: "acquire_stack os p = (Inr (st v1), q)" and
    v1: "v1 = \<lparr>bv_end = sp (stacks q (st v1)), bv_begin = sp (stacks q (st v1)), st = st v1,
          capacity = sp (stacks q (st v1)) + mx1 * sz1\<rparr>" and
    p1: "p1 = release_stack (q\<lparr>stacks := (stacks q)
            (st v1 := (stacks q (st v1))\<lparr>sp := sp (stacks q (st v1)) + mx1 * sz1\<rparr>)\<rparr>)"
    by (rule vector_max_ctor_Inr)
  let ?i = "st v1"
  let ?b = "sp (stacks q ?i)"
  note f = acquire_stack_Inr [OF inv a]
  have invq: "pool_inv q"
    using acquire_stack_inv [OF inv, of os] a by simp
  have b1: "bv_begin v1 = ?b" and c1: "capacity v1 = ?b + mx1 * sz1"
    using v1 by (metis basic_vector.select_convs(2), metis vector_max.select_convs(2))
  have l: "locked p1 = locked p" and al: "allocated p1 = allocated q"
    and s: "sp (stacks p1 ?i) = ?b + mx1 * sz1"
    using f(2) by (simp_all add: p1 release_stack_def)
  have lt: "unat (locked p1) < unat (allocated p1)"
    using f(3,4) by (simp add: l al)
  have inv1: "pool_inv p1"
    using lt invq by (simp add: pool_inv_unat al)
  from acquire_stack_reuse [OF lt, of os]
  have a2: "acquire_stack os p1 = (Inr ?i, p1\<lparr>locked := locked p1 + 1\<rparr>)"
    using f(1) by (simp add: l)
  let ?v2 = "\<lparr>bv_end = ?b + mx1 * sz1, bv_begin = ?b + mx1 * sz1, st = ?i,
              capacity = ?b + mx1 * sz1 + mx2 * sz2\<rparr>"
  let ?p2 = "release_stack (p1\<lparr>locked := locked p1 + 1,
               stacks := (stacks p1)
                 (?i := (stacks p1 ?i)\<lparr>sp := ?b + mx1 * sz1 + mx2 * sz2\<rparr>)\<rparr>)"
  have c2: "vector_max_ctor os sz2 mx2 p1 = (Inr ?v2, ?p2)"
    by (simp add: vector_max_ctor_def a2 s Let_def)
  have s2: "sp (stacks ?p2 (st ?v2)) = capacity ?v2"
    by (simp add: release_stack_def)
  have inv2: "pool_inv ?p2"
    using inv1 by (simp add: pool_inv_unat release_stack_def)
  have "region ?b (unat mx1 * unat sz1)
          \<inter> region (?b + of_nat (unat mx1 * unat sz1)) (unat mx2 * unat sz2) = {}"
    using assms(3) by (rule region_disjoint)
  then have d: "region (bv_begin v1) (unat mx1 * unat sz1)
          \<inter> region (bv_begin ?v2) (unat mx2 * unat sz2) = {}"
    by (simp add: b1)
  have e: "st ?v2 = st v1 \<and> bv_begin ?v2 = bv_begin v1 + mx1 * sz1 \<and> bv_begin ?v2 = capacity v1"
    by (simp add: b1 c1)
  have s1: "sp (stacks p1 (st v1)) = capacity v1"
    by (simp only: s c1)
  from c2 d e s1 s2 inv1 inv2 show ?thesis by blast
qed

text \<open>
  The second and third of three containers on the stack reserved at 4096: five 4-byte
  elements are carved already (\<open>sp = 4116\<close>), then three 8-byte elements, then seven
  2-byte elements.
\<close>

theorem vector_max_regions_adjacent_witness:
  "pool_inv pool_carved \<and>
   sp (stacks pool_carved 0) = 4116 \<and>
   memory (stacks pool_carved 0) = 4096 \<and>
   fst (vector_max_ctor os_example 8 3 pool_carved)
     = Inr \<lparr>bv_end = 4116, bv_begin = 4116, st = 0, capacity = 4140\<rparr> \<and>
   (\<exists>v2 p2. vector_max_ctor os_example 2 7 (snd (vector_max_ctor os_example 8 3 pool_carved))
        = (Inr v2, p2) \<and>
      st v2 = 0 \<and> bv_begin v2 = 4140 \<and> capacity v2 = 4154 \<and>
      sp (stacks p2 0) = 4154 \<and>
      region 4116 24 \<inter> region (bv_begin v2) 14 = {})"
proof -
  let ?v1 = "\<lparr>bv_end = 4116, bv_begin = 4116, st = 0, capacity = 4140\<rparr> :: vector_max"
  let ?p1 = "snd (vector_max_ctor os_example 8 3 pool_carved)"
  have f: "fst (vector_max_ctor os_example 8 3 pool_carved) = Inr ?v1"
    by (simp add: vector_max_ctor_def acquire_stack_def pool_carved_fields Let_def)
  have a: "vector_max_ctor os_example 8 3 pool_carved = (Inr ?v1, ?p1)"
    by (simp add: prod_eq_iff f)
  have b: "unat (3 :: addr) * unat (8 :: addr) + unat (7 :: addr) * unat (2 :: addr) \<le> 2 ^ 64"
    by simp
  from vector_max_regions_adjacent [OF pool_carved_inv a b]
  obtain v2 p2 where
    c: "vector_max_ctor os_example 2 7 ?p1 = (Inr v2, p2)" and
    g: "st v2 = 0" "bv_begin v2 = 4140" "sp (stacks p2 (st v2)) = capacity v2" and
    d: "region 4116 24 \<inter> region (bv_begin v2) 14 = {}"
    by auto
  have "fst (vector_max_ctor os_example 2 7 ?p1)
          = Inr \<lparr>bv_end = 4140, bv_begin = 4140, st = 0, capacity = 4154\<rparr>"
    by (simp add: vector_max_ctor_def acquire_stack_def release_stack_def
        pool_carved_fields Let_def)
  with c have "capacity v2 = 4154" by simp
  with c g d have "vector_max_ctor os_example 2 7 ?p1 = (Inr v2, p2) \<and>
      st v2 = 0 \<and> bv_begin v2 = 4140 \<and> capacity v2 = 4154 \<and>
      sp (stacks p2 0) = 4154 \<and>
      region 4116 24 \<inter> region (bv_begin v2) 14 = {}"
    by simp
  then have "\<exists>v2 p2. vector_max_ctor os_example 2 7 ?p1 = (Inr v2, p2) \<and>
      st v2 = 0 \<and> bv_begin v2 = 4140 \<and> capacity v2 = 4154 \<and>
      sp (stacks p2 0) = 4154 \<and>
      region 4116 24 \<inter> region (bv_begin v2) 14 = {}"
    by blast
  with pool_carved_inv pool_carved_fields(3,4) f show ?thesis by blast
qed

end
